theory Spec2Isabelle
  imports Complex_Main "HOL-Library.Log_Nat"
begin

section \<open>Machine arithmetic of the Go program\<close>

text \<open>
  The autoscaler is a Go program for a 64-bit platform. Its \<^verbatim>\<open>int\<close> and \<^verbatim>\<open>int64\<close>
  values are modelled as HOL integers, with the two's complement wrap-around written out
  at every addition the source performs.
\<close>

definition wrap64 :: "int \<Rightarrow> int" where
  "wrap64 x = (x + 2 ^ 63) mod 2 ^ 64 - 2 ^ 63"

text \<open>
  A \<^verbatim>\<open>float64\<close> is a finite value, an infinity or a NaN. The finite values are held as
  rationals. The sign of a zero is not modelled: the program never divides by a value
  it computed, every divisor is the conversion of an integer, so every zero divisor is
  the positive zero.
\<close>

datatype f64 = Fin rat | PInf | NInf | NaN

text \<open>The binary logarithm of a positive rational, rounded down.\<close>

definition ilog2 :: "rat \<Rightarrow> int" where
  "ilog2 x =
     (if 1 \<le> x then int (floorlog 2 (nat \<lfloor>x\<rfloor>)) - 1
      else - int (floorlog 2 (nat (\<lceil>1 / x\<rceil> - 1))))"

text \<open>Rounding to the nearest integer, a tie going to the even neighbour.\<close>

definition rne :: "rat \<Rightarrow> int" where
  "rne t =
     (let f = \<lfloor>t\<rfloor>; d = t - of_int f
      in if d < 1 / 2 then f
         else if 1 / 2 < d then f + 1
         else if even f then f else f + 1)"

text \<open>
  IEEE 754 binary64 rounding of an exact result: 53 bits of significand, exponents from
  \<open>-1022\<close> (below it the spacing of the subnormal numbers stays fixed), and an infinity
  once the rounded magnitude reaches \<open>2 ^ 1024\<close>. \<open>ulp64\<close> is the distance of
  neighbouring \<^verbatim>\<open>float64\<close> values around a positive magnitude.
\<close>

definition ulp64 :: "rat \<Rightarrow> rat" where
  "ulp64 ax = 2 powi (max (ilog2 ax) (- 1022) - 52)"

definition round64 :: "rat \<Rightarrow> f64" where
  "round64 x =
     (if x = 0 then Fin 0
      else
        let ax = \<bar>x\<bar>;
            r = of_int (rne (ax / ulp64 ax)) * ulp64 ax
        in if 2 powi 1024 \<le> r then (if 0 < x then PInf else NInf)
           else Fin (sgn x * r))"

text \<open>The conversion \<^verbatim>\<open>float64(i)\<close> of an integer.\<close>

definition f64_of_int :: "int \<Rightarrow> f64" where
  "f64_of_int i = round64 (of_int i)"

text \<open>The division \<^verbatim>\<open>x / y\<close> of two \<^verbatim>\<open>float64\<close> values.\<close>

fun f64_div :: "f64 \<Rightarrow> f64 \<Rightarrow> f64" where
  "f64_div NaN _ = NaN"
| "f64_div _ NaN = NaN"
| "f64_div (Fin x) (Fin y) =
     (if y = 0 then (if x = 0 then NaN else if 0 < x then PInf else NInf)
      else round64 (x / y))"
| "f64_div (Fin x) PInf = Fin 0"
| "f64_div (Fin x) NInf = Fin 0"
| "f64_div PInf (Fin y) = (if 0 \<le> y then PInf else NInf)"
| "f64_div NInf (Fin y) = (if 0 \<le> y then NInf else PInf)"
| "f64_div PInf PInf = NaN"
| "f64_div PInf NInf = NaN"
| "f64_div NInf PInf = NaN"
| "f64_div NInf NInf = NaN"

text \<open>\<^verbatim>\<open>math.Ceil\<close>: the least integral value not below the argument; infinities and NaN
  are returned as they are.\<close>

fun f64_ceil :: "f64 \<Rightarrow> f64" where
  "f64_ceil (Fin x) = Fin (of_int \<lceil>x\<rceil>)"
| "f64_ceil PInf = PInf"
| "f64_ceil NInf = NInf"
| "f64_ceil NaN = NaN"

text \<open>The comparison \<^verbatim>\<open>x > 0\<close> on a \<^verbatim>\<open>float64\<close>; it is false on a NaN.\<close>

fun f64_pos :: "f64 \<Rightarrow> bool" where
  "f64_pos (Fin x) = (0 < x)"
| "f64_pos PInf = True"
| "f64_pos NInf = False"
| "f64_pos NaN = False"

text \<open>
  The conversion \<^verbatim>\<open>int(x)\<close> discards the fraction (rounds towards zero). For a NaN, an
  infinity or a value outside the range of \<^verbatim>\<open>int\<close> the Go specification leaves the
  result to the implementation: the function \<open>impl\<close> stands for what the platform
  yields there.
\<close>

type_synonym platform = "f64 \<Rightarrow> int"

definition trunc_rat :: "rat \<Rightarrow> int" where
  "trunc_rat x = (if 0 \<le> x then \<lfloor>x\<rfloor> else \<lceil>x\<rceil>)"

fun int_of_f64 :: "platform \<Rightarrow> f64 \<Rightarrow> int" where
  "int_of_f64 impl (Fin x) =
     (let t = trunc_rat x
      in if - (2 ^ 63) \<le> t \<and> t < 2 ^ 63 then t else impl (Fin x))"
| "int_of_f64 impl PInf = impl PInf"
| "int_of_f64 impl NInf = impl NInf"
| "int_of_f64 impl NaN = impl NaN"

text \<open>On amd64 the conversion instruction yields the least \<^verbatim>\<open>int64\<close> for each of them.\<close>

definition amd64 :: platform where
  "amd64 x = - (2 ^ 63)"

section \<open>Configuration and controller state\<close>

text \<open>
  Instants and durations are counted in nanoseconds. An instant is the number of
  nanoseconds since the zero value of \<^verbatim>\<open>time.Time\<close>; \<^verbatim>\<open>t.Add(d)\<close> is the sum and
  \<^verbatim>\<open>t.After(u)\<close> the strict order.
\<close>

type_synonym instant = int
type_synonym duration = int

definition time_Add :: "instant \<Rightarrow> duration \<Rightarrow> instant" where
  "time_Add t d = t + d"

definition time_After :: "instant \<Rightarrow> instant \<Rightarrow> bool" where
  "time_After t u = (u < t)"

record AutoscalerConfig =
  WorkerServiceId :: string
  RenderAPIKey :: string
  RedisAddress :: string
  MinInstances :: int
  MaxInstances :: int
  WorkersPerInstance :: int
  Interval :: duration
  NumSamples :: int
  ScaleUpDelay :: duration
  ScaleDownDelay :: duration

text \<open>The values of the struct tags: what \<^verbatim>\<open>envconfig\<close> fills in when the environment
  sets only the three required variables.\<close>

definition default_config :: "string \<Rightarrow> string \<Rightarrow> string \<Rightarrow> AutoscalerConfig" where
  "default_config service key address =
     \<lparr>WorkerServiceId = service, RenderAPIKey = key, RedisAddress = address,
      MinInstances = 2, MaxInstances = 50, WorkersPerInstance = 1,
      Interval = 1000000000, NumSamples = 1,
      ScaleUpDelay = 60000000000, ScaleDownDelay = 600000000000\<rparr>"

text \<open>
  The fields \<^verbatim>\<open>redis\<close> and \<^verbatim>\<open>ctx\<close> of the source's struct are handles to the outside
  world; what the backend answers is an input of the functions that query it.
\<close>

record Autoscaler =
  config :: AutoscalerConfig
  instances :: int
  lastScaleTime :: instant
  samples :: "int list"

section \<open>The sampler\<close>

text \<open>
  A reply of the Redis client is a pair of a value and an error, as \<^verbatim>\<open>Result()\<close>
  returns it; \<^verbatim>\<open>redis.Nil\<close> is the error of a key that does not exist. The backend is
  what the client answers for each key during one tick.
\<close>

datatype redis_err = RedisNil | RedisFailure

record Redis =
  SMembers :: "string \<Rightarrow> string list \<times> redis_err option"
  Get :: "string \<Rightarrow> string \<times> redis_err option"
  LLen :: "string \<Rightarrow> int \<times> redis_err option"

text \<open>The keys that \<^verbatim>\<open>fmt.Sprintf\<close> builds for a worker and for a queue.\<close>

definition workerKey :: "string \<Rightarrow> string" where
  "workerKey worker = ''resque:worker:'' @ worker"

definition queueKey :: "string \<Rightarrow> string" where
  "queueKey queue = ''resque:queue:'' @ queue"

text \<open>Both counting functions return the count and the lines they wrote to the log.\<close>

fun countActiveJobs_loop :: "Redis \<Rightarrow> string list \<Rightarrow> int \<times> string list \<Rightarrow> int \<times> string list" where
  "countActiveJobs_loop r [] (jobs, logged) = (jobs, logged)"
| "countActiveJobs_loop r (worker # workers) (jobs, logged) =
     (case snd (Get r (workerKey worker)) of
           None \<Rightarrow> countActiveJobs_loop r workers (wrap64 (jobs + 1), logged)
         | Some RedisNil \<Rightarrow> countActiveJobs_loop r workers (jobs, logged)
         | Some RedisFailure \<Rightarrow>
             countActiveJobs_loop r workers
               (jobs, logged @ [''unexpected error when getting resque worker from redis'']))"

definition countActiveJobs :: "Redis \<Rightarrow> int \<times> string list" where
  "countActiveJobs r =
     (let (workers, err) = SMembers r ''resque:workers'';
          logged = (if err \<noteq> None
                    then [''failed to retrieve resque worker set from redis''] else [])
      in countActiveJobs_loop r workers (0, logged))"

fun countPendingJobs_loop :: "Redis \<Rightarrow> string list \<Rightarrow> int \<times> string list \<Rightarrow> int \<times> string list" where
  "countPendingJobs_loop r [] (jobs, logged) = (jobs, logged)"
| "countPendingJobs_loop r (queue # queues) (jobs, logged) =
     (let (len, err) = LLen r (queueKey queue);
          logged' = (if err \<noteq> None
                     then logged @ [''unexpected error when getting resque queue length'']
                     else logged)
      in countPendingJobs_loop r queues (wrap64 (jobs + len), logged'))"

definition countPendingJobs :: "Redis \<Rightarrow> int \<times> string list" where
  "countPendingJobs r =
     (let (queues, err) = SMembers r ''resque:queues'';
          logged = (if err \<noteq> None
                    then [''failed to retrieve resque queue set from redis''] else [])
      in countPendingJobs_loop r queues (0, logged))"

text \<open>Line 117: the sample of one tick.\<close>

definition sample_jobs :: "Redis \<Rightarrow> int" where
  "sample_jobs r = wrap64 (fst (countActiveJobs r) + fst (countPendingJobs r))"

text \<open>A backend without workers whose only queue, \<^verbatim>\<open>default\<close>, holds \<open>n\<close> jobs.\<close>

definition queue_backend :: "int \<Rightarrow> Redis" where
  "queue_backend n =
     \<lparr>SMembers = (\<lambda>k. if k = ''resque:queues'' then ([''default''], None) else ([], None)),
      Get = (\<lambda>k. ([], Some RedisNil)),
      LLen = (\<lambda>k. if k = ''resque:queue:default'' then (n, None) else (0, None))\<rparr>"

text \<open>
  A backend with three registered workers, of which \<^verbatim>\<open>w1\<close> holds its lease, the read for
  \<^verbatim>\<open>w2\<close> fails and \<^verbatim>\<open>w3\<close> has none, and with two queues, \<^verbatim>\<open>high\<close> of five jobs and
  \<^verbatim>\<open>low\<close>, whose length cannot be read.
\<close>

definition example_backend :: Redis where
  "example_backend =
     \<lparr>SMembers = (\<lambda>k. if k = ''resque:workers'' then ([''w1'', ''w2'', ''w3''], None)
                     else if k = ''resque:queues'' then ([''high'', ''low''], None)
                     else ([], None)),
      Get = (\<lambda>k. if k = ''resque:worker:w1'' then (''job'', None)
                else if k = ''resque:worker:w2'' then ([], Some RedisFailure)
                else ([], Some RedisNil)),
      LLen = (\<lambda>k. if k = ''resque:queue:high'' then (5, None) else (0, Some RedisFailure))\<rparr>"

text \<open>A backend without workers whose two queues report \<open>2 ^ 62\<close> jobs each.\<close>

definition overfull_backend :: Redis where
  "overfull_backend =
     \<lparr>SMembers = (\<lambda>k. if k = ''resque:queues'' then ([''high'', ''low''], None) else ([], None)),
      Get = (\<lambda>k. ([], Some RedisNil)),
      LLen = (\<lambda>k. (4611686018427387904, None))\<rparr>"

section \<open>The decision step\<close>

text \<open>\<^verbatim>\<open>average\<close>: the loop adds the samples up in an \<^verbatim>\<open>int\<close>, the quotient is taken
  in \<^verbatim>\<open>float64\<close>.\<close>

fun average_sum :: "int list \<Rightarrow> int \<Rightarrow> int" where
  "average_sum [] s = s"
| "average_sum (x # xs) s = average_sum xs (wrap64 (s + x))"

definition average :: "int list \<Rightarrow> f64" where
  "average xs = f64_div (f64_of_int (average_sum xs 0)) (f64_of_int (int (length xs)))"

text \<open>Line 118: the sample is appended to the window.\<close>

definition append_sample :: "Autoscaler \<Rightarrow> int \<Rightarrow> Autoscaler" where
  "append_sample a jobs = a\<lparr>samples := samples a @ [jobs]\<rparr>"

text \<open>Line 121: the window is still too short.\<close>

definition window_short :: "Autoscaler \<Rightarrow> bool" where
  "window_short a = (int (length (samples a)) < NumSamples (config a))"

text \<open>Lines 125 to 127: a window that became too long loses its oldest entry.\<close>

definition evict_oldest :: "Autoscaler \<Rightarrow> Autoscaler" where
  "evict_oldest a =
     (if NumSamples (config a) < int (length (samples a))
      then a\<lparr>samples := tl (samples a)\<rparr> else a)"

text \<open>Lines 129 and 130: the instance count before clamping.\<close>

definition raw_instances :: "platform \<Rightarrow> AutoscalerConfig \<Rightarrow> int list \<Rightarrow> int" where
  "raw_instances impl c xs =
     int_of_f64 impl
       (f64_ceil (f64_div (average xs) (f64_of_int (WorkersPerInstance c))))"

text \<open>Lines 131 to 136: the upper bound is applied first, the lower bound last.\<close>

definition clamp_instances :: "AutoscalerConfig \<Rightarrow> int \<Rightarrow> int" where
  "clamp_instances c d =
     (let d1 = (if MaxInstances c < d then MaxInstances c else d)
      in if d1 < MinInstances c then MinInstances c else d1)"

text \<open>Lines 129 to 136: the clamped count of the window.\<close>

definition desired_instances :: "platform \<Rightarrow> Autoscaler \<Rightarrow> int" where
  "desired_instances impl a =
     clamp_instances (config a) (raw_instances impl (config a) (samples a))"

text \<open>Lines 138 to 149: the two delays.\<close>

definition gate_instances :: "Autoscaler \<Rightarrow> int \<Rightarrow> instant \<Rightarrow> int" where
  "gate_instances a d now =
     (if instances a < d
         \<and> time_After now (time_Add (lastScaleTime a) (ScaleUpDelay (config a)))
      then d
      else if d < instances a
         \<and> time_After now (time_Add (lastScaleTime a) (ScaleDownDelay (config a)))
      then d
      else instances a)"

text \<open>
  \<^verbatim>\<open>calculateDesiredInstances\<close> from line 118 on, given the job count of line 117 and the
  reading of the clock of line 138. It returns the count and the updated state.
\<close>

definition calculate_from :: "platform \<Rightarrow> Autoscaler \<Rightarrow> int \<Rightarrow> instant \<Rightarrow> int \<times> Autoscaler" where
  "calculate_from impl a jobs now =
     (let a1 = append_sample a jobs
      in if window_short a1 then (instances a1, a1)
         else
           let a2 = evict_oldest a1
           in (gate_instances a2 (desired_instances impl a2) now, a2))"

definition calculateDesiredInstances :: "platform \<Rightarrow> Autoscaler \<Rightarrow> Redis \<Rightarrow> instant \<Rightarrow> int \<times> Autoscaler" where
  "calculateDesiredInstances impl a r now = calculate_from impl a (sample_jobs r) now"

section \<open>The decision loop\<close>

text \<open>
  One iteration of \<^verbatim>\<open>calculateInstancesLoop\<close>. Its inputs are the answers of the backend
  and two readings of the clock: \<open>now\<close> at line 138 and \<open>now'\<close> at line 110, after the
  send on the channel. Its results are the value sent on the channel, if any, and the
  state at the start of the next iteration.
\<close>

definition loop_tick :: "platform \<Rightarrow> Autoscaler \<Rightarrow> Redis \<Rightarrow> instant \<Rightarrow> instant \<Rightarrow> int option \<times> Autoscaler" where
  "loop_tick impl a r now now' =
     (let (n, a1) = calculateDesiredInstances impl a r now
      in if n \<noteq> instances a1
         then (Some n, a1\<lparr>instances := n, lastScaleTime := now'\<rparr>)
         else (None, a1))"

text \<open>The first iterations of the loop, one for each element of the list of inputs.\<close>

fun run_ticks :: "platform \<Rightarrow> Autoscaler \<Rightarrow> (Redis \<times> instant \<times> instant) list \<Rightarrow> Autoscaler" where
  "run_ticks impl a [] = a"
| "run_ticks impl a ((r, now, now') # ts) = run_ticks impl (snd (loop_tick impl a r now now')) ts"

section \<open>Start-up\<close>

text \<open>
  What \<^verbatim>\<open>renderAPICall\<close> returned for the read of the service: the status, the body and
  whether the call failed. The body is held as the number that
  \<^verbatim>\<open>gjson.Get(resp, "serviceDetails.numInstances").Num\<close> reads from it, which is zero when
  the field is missing or is not a number.
\<close>

record api_result =
  status :: int
  numInstances :: f64
  failed :: bool

definition getInstanceCount :: "platform \<Rightarrow> AutoscalerConfig \<Rightarrow> api_result \<Rightarrow> int" where
  "getInstanceCount impl c res =
     (if failed res \<or> status res \<noteq> 200 then MinInstances c
      else
        let count = numInstances res
        in if f64_pos count then int_of_f64 impl count else MinInstances c)"

text \<open>\<^verbatim>\<open>init\<close>: the state the loop starts from. The zero value of \<^verbatim>\<open>time.Time\<close> is the
  instant \<open>0\<close>.\<close>

definition init_autoscaler :: "platform \<Rightarrow> AutoscalerConfig \<Rightarrow> api_result \<Rightarrow> Autoscaler" where
  "init_autoscaler impl c res =
     \<lparr>config = c, instances = getInstanceCount impl c res, lastScaleTime = 0, samples = []\<rparr>"

text \<open>A state for the examples: the default configuration, two instances, a last
  scaling at the instant 1000 and an empty window.\<close>

definition example_state :: Autoscaler where
  "example_state =
     \<lparr>config = default_config ''srv-1'' ''key'' ''redis:6379'',
      instances = 2, lastScaleTime = 1000, samples = []\<rparr>"

section \<open>Facts about the arithmetic\<close>

lemma floorlog2_spec:
  assumes "1 \<le> n"
  shows "1 \<le> floorlog 2 n"
    and "(2::rat) ^ (floorlog 2 n - 1) \<le> rat_of_nat n"
    and "rat_of_nat n + 1 \<le> 2 ^ floorlog 2 n"
proof -
  define L where "L = floorlog 2 n"
  from assms have b: "2 ^ (L - 1) \<le> n" "n < 2 ^ L"
    using floorlog_bounds [of n 2] by (simp_all add: L_def)
  show "1 \<le> floorlog 2 n"
  proof (rule ccontr)
    assume "\<not> 1 \<le> floorlog 2 n"
    then have "L = 0" by (simp add: L_def)
    with b(2) assms show False by simp
  qed
  have "rat_of_nat (2 ^ (L - 1)) \<le> rat_of_nat n" using b(1) by (simp only: of_nat_le_iff)
  then show "(2::rat) ^ (floorlog 2 n - 1) \<le> rat_of_nat n" by (simp add: L_def)
  from b(2) have "n + 1 \<le> 2 ^ L" by simp
  then have "rat_of_nat (n + 1) \<le> rat_of_nat (2 ^ L)" by (simp only: of_nat_le_iff)
  then show "rat_of_nat n + 1 \<le> 2 ^ floorlog 2 n" by (simp add: L_def)
qed

lemma ilog2_ge1:
  fixes x :: rat
  assumes "1 \<le> x"
  shows "2 powi (ilog2 x) \<le> x \<and> x < 2 powi (ilog2 x + 1)"
proof -
  define n where "n = nat \<lfloor>x\<rfloor>"
  define L where "L = floorlog 2 n"
  have f1: "1 \<le> \<lfloor>x\<rfloor>" using assms by (simp add: le_floor_iff)
  have n1: "1 \<le> n" using f1 unfolding n_def by linarith
  have ni: "rat_of_nat n = rat_of_int \<lfloor>x\<rfloor>"
    using f1 unfolding n_def by (metis int_nat_eq of_int_of_nat_eq order_trans zero_le_one)
  have nx: "rat_of_nat n \<le> x" "x < rat_of_nat n + 1"
    unfolding ni by linarith+
  note s = floorlog2_spec [OF n1, folded L_def]
  have e: "ilog2 x = int L - 1" using assms by (simp add: ilog2_def L_def n_def)
  have i1: "int L - 1 = int (L - 1)" and i2: "int L - 1 + 1 = int L"
    using s(1) by simp_all
  have "2 powi (int L - 1) = (2::rat) ^ (L - 1)"
    unfolding i1 by (rule power_int_of_nat)
  moreover have "2 powi (int L - 1 + 1) = (2::rat) ^ L"
    unfolding i2 by (rule power_int_of_nat)
  ultimately show ?thesis unfolding e using nx s(2,3) by linarith
qed

lemma ilog2_lt1:
  fixes x :: rat
  assumes "0 < x" "x < 1"
  shows "2 powi (ilog2 x) \<le> x \<and> x < 2 powi (ilog2 x + 1)"
proof -
  define y where "y = 1 / x"
  define m where "m = nat (\<lceil>y\<rceil> - 1)"
  define L where "L = floorlog 2 m"
  have y1: "1 < y" using assms by (simp add: y_def)
  have c2: "2 \<le> \<lceil>y\<rceil>" using y1 by (simp add: le_ceiling_iff)
  have m1: "1 \<le> m" using c2 unfolding m_def by linarith
  have "0 \<le> \<lceil>y\<rceil> - 1" using c2 by linarith
  then have mi: "rat_of_nat m = rat_of_int (\<lceil>y\<rceil> - 1)"
    unfolding m_def by (metis int_nat_eq of_int_of_nat_eq)
  have my: "rat_of_nat m < y" "y \<le> rat_of_nat m + 1"
    unfolding mi by (simp_all add: ceiling_correct)
  note s = floorlog2_spec [OF m1, folded L_def]
  have e: "ilog2 x = - int L" using assms by (simp add: ilog2_def L_def m_def y_def)
  have yL: "y \<le> 2 ^ L" using my(2) s(3) by linarith
  have Ly: "2 ^ (L - 1) < y" using my(1) s(2) by linarith
  have xy: "1 / y = x" using assms by (simp add: y_def)
  have p1: "2 powi (- int L) = 1 / (2::rat) ^ L"
    by (simp add: power_int_minus_divide)
  have i: "- int L + 1 = - int (L - 1)" using s(1) by simp
  have p2: "2 powi (- int L + 1) = 1 / (2::rat) ^ (L - 1)"
    unfolding i by (simp add: power_int_minus_divide)
  have "1 / (2::rat) ^ L \<le> 1 / y" using yL y1 by (intro divide_left_mono) simp_all
  moreover have "1 / y < 1 / (2::rat) ^ (L - 1)"
    using Ly y1 by (intro divide_strict_left_mono) (simp_all add: zero_less_mult_iff)
  ultimately show ?thesis unfolding e p1 p2 xy by simp
qed

lemma ilog2_bounds:
  "0 < x \<Longrightarrow> 2 powi (ilog2 x) \<le> x \<and> x < 2 powi (ilog2 x + 1)"
  using ilog2_ge1 [of x] ilog2_lt1 [of x] by (cases "1 \<le> x") auto

lemma ilog2_unique:
  assumes "0 < x" "2 powi e \<le> x" "x < 2 powi (e + 1)"
  shows "ilog2 x = e"
proof -
  note b = ilog2_bounds [OF assms(1)]
  have "2 powi (ilog2 x) < (2::rat) powi (e + 1)" using b assms(3) by linarith
  then have "ilog2 x < e + 1"
    by (metis power_int_increasing not_le one_le_numeral)
  moreover have "2 powi e < (2::rat) powi (ilog2 x + 1)" using b assms(2) by linarith
  then have "e < ilog2 x + 1"
    by (metis power_int_increasing not_le one_le_numeral)
  ultimately show ?thesis by linarith
qed

lemma ilog2_less:
  assumes "0 < x" "x < 2 powi e"
  shows "ilog2 x < e"
proof -
  have "2 powi (ilog2 x) < (2::rat) powi e" using ilog2_bounds [OF assms(1)] assms(2) by linarith
  then show ?thesis by (metis power_int_increasing not_le one_le_numeral)
qed

lemma ilog2_ge:
  assumes "0 < x" "2 powi e \<le> x"
  shows "e \<le> ilog2 x"
proof -
  have "2 powi e < (2::rat) powi (ilog2 x + 1)" using ilog2_bounds [OF assms(1)] assms(2) by linarith
  then have "e < ilog2 x + 1" by (metis power_int_increasing not_le one_le_numeral)
  then show ?thesis by linarith
qed

lemma rne_of_int: "rne (of_int k) = k"
  by (simp add: rne_def)

lemma rne_le: "t \<le> of_int k \<Longrightarrow> rne t \<le> k"
proof -
  assume a: "t \<le> of_int k"
  have f: "of_int \<lfloor>t\<rfloor> \<le> t" "t < of_int \<lfloor>t\<rfloor> + 1" by linarith+
  have "\<lfloor>t\<rfloor> \<le> k" using a by (simp add: floor_le_iff)
  moreover have "\<lfloor>t\<rfloor> + 1 \<le> k" if "of_int \<lfloor>t\<rfloor> < t"
  proof -
    have "rat_of_int \<lfloor>t\<rfloor> < rat_of_int k" using that a by linarith
    then show ?thesis by simp
  qed
  ultimately show ?thesis unfolding rne_def Let_def using f by (auto split: if_splits)
qed

lemma rne_ge: "of_int k \<le> t \<Longrightarrow> k \<le> rne t"
proof -
  assume a: "of_int k \<le> t"
  then have "k \<le> \<lfloor>t\<rfloor>" by (simp add: le_floor_iff)
  then show ?thesis unfolding rne_def Let_def by (auto split: if_splits)
qed

lemma rne_err: "\<bar>of_int (rne t) - t\<bar> \<le> 1 / 2"
proof -
  have f: "of_int \<lfloor>t\<rfloor> \<le> t" "t < of_int \<lfloor>t\<rfloor> + 1" by linarith+
  show ?thesis
  proof (cases "t - of_int \<lfloor>t\<rfloor> < 1 / 2")
    case True
    then have "rne t = \<lfloor>t\<rfloor>" by (simp add: rne_def Let_def)
    with True f show ?thesis by simp
  next
    case False
    note nlt = this
    show ?thesis
    proof (cases "1 / 2 < t - of_int \<lfloor>t\<rfloor>")
      case True
      then have "rne t = \<lfloor>t\<rfloor> + 1" using nlt by (simp add: rne_def Let_def)
      with True f show ?thesis by simp
    next
      case False
      with nlt have eq: "t - of_int \<lfloor>t\<rfloor> = 1 / 2" by linarith
      have "rne t = \<lfloor>t\<rfloor> \<or> rne t = \<lfloor>t\<rfloor> + 1" by (simp add: rne_def Let_def)
      then show ?thesis
      proof
        assume "rne t = \<lfloor>t\<rfloor>"
        then show ?thesis using eq by simp
      next
        assume "rne t = \<lfloor>t\<rfloor> + 1"
        then have "of_int (rne t) - t = 1 / 2" using eq by simp
        then show ?thesis by simp
      qed
    qed
  qed
qed

lemma ulp64_pos: "0 < ulp64 x"
  by (simp add: ulp64_def)

lemma ulp64_inverse_power:
  assumes "0 < x" "x < 2 powi 53"
  shows "\<exists>j::nat. ulp64 x = 1 / 2 ^ j"
proof -
  have "ilog2 x < 53" using assms by (rule ilog2_less)
  then have "max (ilog2 x) (- 1022) - 52 = - int (nat (52 - max (ilog2 x) (- 1022)))"
    by simp
  then have "ulp64 x = 2 powi (- int (nat (52 - max (ilog2 x) (- 1022))))"
    by (simp only: ulp64_def)
  then have "ulp64 x = 1 / 2 ^ nat (52 - max (ilog2 x) (- 1022))"
    by (simp only: power_int_minus_divide power_int_of_nat)
  then show ?thesis ..
qed

lemma ulp64_at_exponent:
  assumes "2 powi e \<le> x" "x < 2 powi (e + 1)" "- 1022 \<le> e"
  shows "ulp64 x = 2 powi (e - 52)"
proof -
  have "0 < x" using assms(1) by (rule less_le_trans [rotated]) simp
  then have "ilog2 x = e" using assms(1,2) by (rule ilog2_unique)
  then show ?thesis using assms(3) by (simp add: ulp64_def)
qed

lemma round64_pos_Fin:
  assumes "0 < x" "of_int (rne (x / ulp64 x)) * ulp64 x < 2 powi 1024"
  shows "round64 x = Fin (of_int (rne (x / ulp64 x)) * ulp64 x)"
  using assms by (simp add: round64_def Let_def not_le [symmetric])

lemma p53_le_p1024: "(2::rat) ^ 53 < 2 powi 1024"
proof -
  have "(2::rat) powi 53 < 2 powi 1024" by (rule power_int_strict_increasing) simp_all
  then show ?thesis by simp
qed

lemma round64_upper:
  assumes "0 < x" "x \<le> of_int K" "K < 2 ^ 53"
  shows "round64 x = Fin (of_int (rne (x / ulp64 x)) * ulp64 x)"
    and "of_int (rne (x / ulp64 x)) * ulp64 x \<le> of_int K"
proof -
  have "rat_of_int K < rat_of_int (2 ^ 53)" using assms(3) by (simp only: of_int_less_iff)
  then have K: "rat_of_int K < 2 ^ 53" by simp
  then have "x < 2 powi 53" using assms(2) by simp
  then obtain j :: nat where j: "ulp64 x = 1 / 2 ^ j"
    using ulp64_inverse_power [OF assms(1)] by blast
  have "x / ulp64 x = x * 2 ^ j" by (simp add: j)
  also have "\<dots> \<le> of_int K * 2 ^ j" using assms(2) by simp
  also have "\<dots> = of_int (K * 2 ^ j)" by simp
  finally have "rne (x / ulp64 x) \<le> K * 2 ^ j" by (rule rne_le)
  then have "rat_of_int (rne (x / ulp64 x)) \<le> rat_of_int (K * 2 ^ j)"
    by (simp only: of_int_le_iff)
  then have "rat_of_int (rne (x / ulp64 x)) \<le> rat_of_int K * 2 ^ j" by simp
  then have "rat_of_int (rne (x / ulp64 x)) / 2 ^ j \<le> rat_of_int K"
    by (simp add: divide_le_eq)
  then show u: "of_int (rne (x / ulp64 x)) * ulp64 x \<le> of_int K" by (simp add: j)
  have "of_int (rne (x / ulp64 x)) * ulp64 x < 2 powi 1024"
    using u K p53_le_p1024 by linarith
  with assms(1) show "round64 x = Fin (of_int (rne (x / ulp64 x)) * ulp64 x)"
    by (rule round64_pos_Fin)
qed

lemma round64_lower_int:
  assumes "0 < x" "of_int K \<le> x" "x < 2 powi 53"
  shows "of_int K \<le> of_int (rne (x / ulp64 x)) * ulp64 x"
proof -
  obtain j :: nat where j: "ulp64 x = 1 / 2 ^ j"
    using ulp64_inverse_power [OF assms(1,3)] by blast
  have "rat_of_int (K * 2 ^ j) = of_int K * 2 ^ j" by simp
  also have "\<dots> \<le> x * 2 ^ j" using assms(2) by simp
  also have "\<dots> = x / ulp64 x" by (simp add: j)
  finally have "K * 2 ^ j \<le> rne (x / ulp64 x)" by (rule rne_ge)
  then have "rat_of_int (K * 2 ^ j) \<le> rat_of_int (rne (x / ulp64 x))"
    by (simp only: of_int_le_iff)
  then have "rat_of_int K * 2 ^ j \<le> rat_of_int (rne (x / ulp64 x))" by simp
  then have "rat_of_int K \<le> rat_of_int (rne (x / ulp64 x)) / 2 ^ j"
    by (simp add: le_divide_eq)
  then show ?thesis by (simp add: j)
qed

lemma round64_of_int_pos:
  assumes "0 < k" "k < 2 ^ 53"
  shows "round64 (of_int k) = Fin (of_int k)"
proof -
  have x: "0 < rat_of_int k" using assms(1) by simp
  have "rat_of_int k < rat_of_int (2 ^ 53)" using assms(2) by (simp only: of_int_less_iff)
  then have lt: "rat_of_int k < 2 powi 53" by simp
  note u = round64_upper [OF x order_refl assms(2)]
  note l = round64_lower_int [OF x order_refl lt]
  from u(2) l have "of_int (rne (of_int k / ulp64 (of_int k))) * ulp64 (of_int k) = rat_of_int k"
    by (rule antisym)
  with u(1) show ?thesis by simp
qed

lemma round64_minus: "round64 (- x) = (case round64 x of Fin y \<Rightarrow> Fin (- y) | PInf \<Rightarrow> NInf | NInf \<Rightarrow> PInf | NaN \<Rightarrow> NaN)"
  by (simp add: round64_def Let_def sgn_minus)

lemma round64_of_int:
  assumes "\<bar>k\<bar> < 2 ^ 53"
  shows "round64 (of_int k) = Fin (of_int k)"
proof -
  consider "k = 0" | "0 < k" | "k < 0" by linarith
  then show ?thesis
  proof cases
    case 1
    then show ?thesis by (simp add: round64_def)
  next
    case 2
    with assms show ?thesis by (intro round64_of_int_pos) simp_all
  next
    case 3
    with assms have "round64 (of_int (- k)) = Fin (of_int (- k))"
      by (intro round64_of_int_pos) simp_all
    then have "round64 (- rat_of_int (- k)) = Fin (- rat_of_int (- k))"
      by (simp only: round64_minus f64.case)
    then show ?thesis by simp
  qed
qed

lemma round64_rel:
  assumes "2 powi (- 1022) \<le> x"
  shows "x * (1 - 1 / 2 ^ 53) \<le> of_int (rne (x / ulp64 x)) * ulp64 x"
proof -
  have x: "0 < x" using assms by (rule less_le_trans [rotated]) simp
  have ge: "- 1022 \<le> ilog2 x" using x assms by (rule ilog2_ge)
  then have u: "ulp64 x = 2 powi (ilog2 x - 52)" by (simp add: ulp64_def)
  have "2 powi (ilog2 x - 52) = (2::rat) powi (ilog2 x) / 2 powi 52"
    by (rule power_int_diff) simp
  then have u': "ulp64 x = 2 powi (ilog2 x) / 2 ^ 52" using u by simp
  have "2 powi (ilog2 x) \<le> x" using ilog2_bounds [OF x] by simp
  then have ux: "ulp64 x \<le> x / 2 ^ 52" unfolding u' by (simp add: divide_right_mono)
  have "\<bar>of_int (rne (x / ulp64 x)) - x / ulp64 x\<bar> \<le> 1 / 2" by (rule rne_err)
  then have "x / ulp64 x - 1 / 2 \<le> of_int (rne (x / ulp64 x))" by linarith
  then have "(x / ulp64 x - 1 / 2) * ulp64 x \<le> of_int (rne (x / ulp64 x)) * ulp64 x"
    using ulp64_pos [of x] by (simp only: mult_le_cancel_right_pos)
  moreover have "(x / ulp64 x - 1 / 2) * ulp64 x = x - ulp64 x / 2"
    using ulp64_pos [of x] by (simp add: field_simps)
  ultimately have a: "x - ulp64 x / 2 \<le> of_int (rne (x / ulp64 x)) * ulp64 x" by simp
  define c where "c = x / 2 ^ 52"
  have "x * (1 - 1 / 2 ^ 53) = x - c / 2" by (simp add: c_def field_simps)
  also have "\<dots> \<le> x - ulp64 x / 2" using ux unfolding c_def [symmetric] by linarith
  also note a
  finally show ?thesis .
qed

lemma p1022_small:
  assumes "1 / 2 ^ 107 \<le> (x::rat)"
  shows "2 powi (- 1022) \<le> x"
proof -
  have "(2::rat) powi (- 1022) \<le> 2 powi (- 107)" by (rule power_int_increasing) simp_all
  also have "(2::rat) powi (- 107) = 1 / 2 ^ 107" by (simp add: power_int_minus_divide)
  finally show ?thesis using assms by linarith
qed

lemma round64_bounds:
  assumes "1 / 2 ^ 107 \<le> x" "x \<le> of_int K" "K < 2 ^ 53"
  shows "\<exists>y. round64 x = Fin y \<and> x * (1 - 1 / 2 ^ 53) \<le> y \<and> y \<le> of_int K"
proof -
  have x0: "0 < x" using assms(1) by (rule less_le_trans [rotated]) simp
  note u = round64_upper [OF x0 assms(2,3)]
  note r = round64_rel [OF p1022_small [OF assms(1)]]
  from u r show ?thesis by blast
qed

lemma round64_above_2p53:
  assumes "x = 2 ^ 53 \<or> x = 2 ^ 53 + 1"
  shows "round64 x = Fin (2 ^ 53)"
proof -
  have x: "0 < x" "2 powi 53 \<le> x" "x < 2 powi (53 + 1)" using assms by auto
  have u: "ulp64 x = 2" using ulp64_at_exponent [OF x(2,3)] by simp
  define t where "t = x / 2"
  have f: "\<lfloor>t\<rfloor> = 2 ^ 52" unfolding t_def using assms by (intro floor_unique) auto
  have "t - 2 ^ 52 = 0 \<or> t - 2 ^ 52 = 1 / 2" unfolding t_def using assms by auto
  then have d: "t - of_int \<lfloor>t\<rfloor> = 0 \<or> t - of_int \<lfloor>t\<rfloor> = 1 / 2"
    by (simp add: f)
  have ev: "even \<lfloor>t\<rfloor>" by (simp add: f)
  have "rne t = \<lfloor>t\<rfloor>" using d ev unfolding rne_def Let_def by auto
  then have "rne (x / 2) = 2 ^ 52" by (simp add: f t_def [symmetric])
  then have r: "of_int (rne (x / ulp64 x)) * ulp64 x = 2 ^ 53" by (simp add: u)
  have "of_int (rne (x / ulp64 x)) * ulp64 x < 2 powi 1024"
    unfolding r by (rule p53_le_p1024)
  with x(1) have "round64 x = Fin (of_int (rne (x / ulp64 x)) * ulp64 x)"
    by (rule round64_pos_Fin)
  then show ?thesis by (simp only: r)
qed

lemma two_roundings_ceiling:
  fixes S n w :: int
  assumes S: "0 < S" "S < 2 ^ 52" and n: "1 \<le> n" "n < 2 ^ 53" and w: "1 \<le> w" "w \<le> 2 ^ 52"
  shows "\<exists>a b. round64 (of_int S / of_int n) = Fin a \<and> round64 (a / of_int w) = Fin b
    \<and> \<lceil>b\<rceil> = \<lceil>rat_of_int S / of_int n / of_int w\<rceil>"
proof -
  define q :: rat where "q = of_int S / of_int n"
  define k where "k = \<lceil>q / of_int w\<rceil>"
  define c :: rat where "c = 1 - 1 / 2 ^ 53"
  define N :: rat where "N = of_int n"
  define W :: rat where "W = of_int w"
  define R :: rat where "R = of_int S"
  have R: "1 \<le> R" "R < 2 ^ 52"
  proof -
    have "rat_of_int 1 \<le> rat_of_int S" using S(1) by simp
    then show "1 \<le> R" by (simp add: R_def)
    have "rat_of_int S < rat_of_int (2 ^ 52)" using S(2) by (simp only: of_int_less_iff)
    then show "R < 2 ^ 52" by (simp add: R_def)
  qed
  have N: "1 \<le> N" "N < 2 ^ 53"
  proof -
    have "rat_of_int 1 \<le> rat_of_int n" using n(1) by (simp only: of_int_le_iff)
    then show "1 \<le> N" by (simp add: N_def)
    have "rat_of_int n < rat_of_int (2 ^ 53)" using n(2) by (simp only: of_int_less_iff)
    then show "N < 2 ^ 53" by (simp add: N_def)
  qed
  have W: "1 \<le> W" "W \<le> 2 ^ 52"
  proof -
    have "rat_of_int 1 \<le> rat_of_int w" using w(1) by (simp only: of_int_le_iff)
    then show "1 \<le> W" by (simp add: W_def)
    have "rat_of_int w \<le> rat_of_int (2 ^ 52)" using w(2) by (simp only: of_int_le_iff)
    then show "W \<le> 2 ^ 52" by (simp add: W_def)
  qed
  have c: "1 / 2 \<le> c" "c \<le> 1" by (simp_all add: c_def)
  have q: "q = R / N" by (simp add: q_def R_def N_def)
  have qN: "q * N = R" using N(1) by (simp add: q)
  have q0: "0 < q" using R(1) N(1) by (simp add: q)
  have q_low: "1 / 2 ^ 53 \<le> q"
  proof -
    have "1 / 2 ^ 53 \<le> 1 / N" using N by (intro divide_left_mono) simp_all
    also have "1 / N \<le> R / N" using R(1) N(1) by (intro divide_right_mono) simp_all
    finally show ?thesis by (simp add: q)
  qed
  have k_ge: "q / W \<le> of_int k" and k_lt: "of_int k - 1 < q / W"
    unfolding k_def W_def by linarith+
  have "0 < q / W" using q0 W(1) by simp
  then have "0 < rat_of_int k" using k_ge by linarith
  then have k1: "1 \<le> k" by simp
  have NW0: "0 < N * W" using N(1) W(1) by simp
  have "(of_int k - 1) * (N * W) < q / W * (N * W)"
    using k_lt NW0 by (simp only: mult_less_cancel_right_pos)
  also have "q / W * (N * W) = R" using W(1) qN by simp
  finally have rat_lt: "(of_int k - 1) * (N * W) < R" .
  have "rat_of_int ((k - 1) * (n * w)) < rat_of_int S"
    using rat_lt by (simp add: N_def W_def R_def)
  then have int_lt: "(k - 1) * (n * w) < S" by (simp only: of_int_less_iff)
  have "(k - 1) * w * 1 \<le> (k - 1) * w * n"
    using k1 w(1) n(1) by (intro mult_left_mono) simp_all
  then have "(k - 1) * w < S" using int_lt by (simp add: mult_ac)
  then have "k * w < S + w" by (simp add: algebra_simps)
  then have kw: "k * w < 2 ^ 53" using S(2) w(2) by simp
  have "k * 1 \<le> k * w" using k1 w(1) by (intro mult_left_mono) simp_all
  then have kk: "k < 2 ^ 53" using kw by simp
  have q_le: "q \<le> of_int (k * w)"
  proof -
    have "q / W * W \<le> of_int k * W" using k_ge W(1) by (intro mult_right_mono) simp_all
    then show ?thesis using W(1) by (simp add: W_def)
  qed
  have "1 / 2 ^ 107 \<le> (1::rat) / 2 ^ 53" by simp
  then have q_low': "1 / 2 ^ 107 \<le> q" using q_low by (rule order_trans)
  obtain a where a: "round64 q = Fin a" "q * c \<le> a" "a \<le> of_int (k * w)"
    using round64_bounds [OF q_low' q_le kw] unfolding c_def by blast
  have a_low: "1 / 2 ^ 54 \<le> a"
  proof -
    have "(1 / 2 ^ 53) * (1 / 2) \<le> q * c"
      using q_low c(1) by (intro mult_mono) simp_all
    then show ?thesis using a(2) by simp
  qed
  have aw_le: "a / W \<le> of_int k"
  proof -
    have "a \<le> of_int k * W" using a(3) by (simp add: W_def)
    then show ?thesis using W(1) by (simp add: divide_le_eq)
  qed
  have aw_low: "1 / 2 ^ 107 \<le> a / W"
  proof -
    have "(1::rat) / 2 ^ 107 \<le> (1 / 2 ^ 54) / 2 ^ 52" by simp
    also have "(1 / 2 ^ 54) / 2 ^ 52 \<le> a / 2 ^ 52"
      using a_low by (intro divide_right_mono) simp_all
    also have "a / 2 ^ 52 \<le> a / W" using a_low W by (intro divide_left_mono) simp_all
    finally show ?thesis .
  qed
  obtain b where b: "round64 (a / W) = Fin b" "a / W * c \<le> b" "b \<le> of_int k"
    using round64_bounds [OF aw_low aw_le kk] unfolding c_def by blast
  have b_gt: "of_int k - 1 < b"
  proof -
    have "R - 1 < R * (c * c)"
    proof -
      have "R * (1 / 2 ^ 52) < 1" using R(2) by simp
      moreover have "1 - 1 / 2 ^ 52 \<le> c * c" by (simp add: c_def power2_eq_square [symmetric] field_simps)
      then have "R * (1 - 1 / 2 ^ 52) \<le> R * (c * c)" using R(1) by (intro mult_left_mono) simp_all
      ultimately show ?thesis by (simp add: algebra_simps)
    qed
    also have "R * (c * c) = q * c * c * N" using qN by (simp add: mult_ac)
    also have "\<dots> \<le> a * c * N" using a(2) c(1) N(1) by (intro mult_right_mono) simp_all
    also have "a * c * N = a / W * c * (N * W)" using W(1) by simp
    also have "\<dots> \<le> b * (N * W)" using b(2) NW0 by (intro mult_right_mono) simp_all
    finally have "R - 1 < b * (N * W)" .
    moreover have "(of_int k - 1) * (N * W) \<le> R - 1"
    proof -
      have "(k - 1) * (n * w) \<le> S - 1" using int_lt by simp
      then have "rat_of_int ((k - 1) * (n * w)) \<le> rat_of_int (S - 1)" by (simp only: of_int_le_iff)
      then show ?thesis by (simp add: N_def W_def R_def)
    qed
    ultimately have "(of_int k - 1) * (N * W) < b * (N * W)" by linarith
    then show ?thesis using NW0 by (simp only: mult_less_cancel_right_pos)
  qed
  have "\<lceil>b\<rceil> = k" using b_gt b(3) by (rule ceiling_unique)
  then have "\<lceil>b\<rceil> = \<lceil>rat_of_int S / of_int n / of_int w\<rceil>" by (simp add: k_def q_def)
  then show ?thesis using a(1) b(1) unfolding q_def W_def by blast
qed

lemma f64_of_int_exact: "\<bar>k\<bar> < 2 ^ 53 \<Longrightarrow> f64_of_int k = Fin (of_int k)"
  by (simp add: f64_of_int_def round64_of_int)

lemma f64_div_exact:
  assumes "y \<noteq> 0" "x / y = of_int k" "\<bar>k\<bar> < 2 ^ 53"
  shows "f64_div (Fin x) (Fin y) = Fin (of_int k)"
  using assms by (simp add: round64_of_int)

lemma wrap64_id: "- (2 ^ 63) \<le> x \<Longrightarrow> x < 2 ^ 63 \<Longrightarrow> wrap64 x = x"
  by (simp add: wrap64_def)

lemma average_sum_eq:
  assumes "0 \<le> s" "\<forall>x\<in>set xs. 0 \<le> x" "s + sum_list xs < 2 ^ 63"
  shows "average_sum xs s = s + sum_list xs"
  using assms
proof (induction xs arbitrary: s)
  case Nil
  then show ?case by simp
next
  case (Cons x xs)
  have x0: "0 \<le> x" and r0: "0 \<le> sum_list xs"
    using Cons.prems(2) by (simp_all add: sum_list_nonneg)
  have w: "wrap64 (s + x) = s + x"
    using Cons.prems(1,3) x0 r0 by (intro wrap64_id) simp_all
  have "average_sum xs (s + x) = s + x + sum_list xs"
    using Cons.prems x0 by (intro Cons.IH) simp_all
  then show ?case by (simp add: w)
qed

lemma raw_instances_Fin:
  assumes "average xs = Fin q" "f64_of_int (WorkersPerInstance c) = Fin W" "W \<noteq> 0"
    and "round64 (q / W) = Fin b" "- (2 ^ 63) \<le> \<lceil>b\<rceil>" "\<lceil>b\<rceil> < 2 ^ 63"
  shows "raw_instances impl c xs = \<lceil>b\<rceil>"
  using assms by (simp add: raw_instances_def trunc_rat_def)

section \<open>Facts about the sampler\<close>

lemma wrap64_add_left: "wrap64 (wrap64 a + b) = wrap64 (a + b)"
proof -
  define m :: int where "m = 2 ^ 64"
  define h :: int where "h = 2 ^ 63"
  have "wrap64 a + b + h = (a + h) mod m + b" by (simp add: wrap64_def m_def h_def)
  then have "(wrap64 a + b + h) mod m = ((a + h) mod m + b) mod m" by (simp only:)
  also have "\<dots> = (a + h + b) mod m" by (rule mod_add_left_eq)
  also have "a + h + b = a + b + h" by simp
  finally have "(wrap64 a + b + h) mod m - h = (a + b + h) mod m - h" by simp
  then show ?thesis unfolding m_def h_def wrap64_def [symmetric] .
qed

lemma wrap64_add_right: "wrap64 (a + wrap64 b) = wrap64 (a + b)"
  using wrap64_add_left [of b a] by (simp add: add.commute)

lemma wrap64_idem: "wrap64 (wrap64 a) = wrap64 a"
  using wrap64_add_left [of a 0] by simp

lemma countActiveJobs_loop_wrap:
  assumes "wrap64 jobs = jobs"
  shows "fst (countActiveJobs_loop r workers (jobs, logged)) =
    wrap64 (jobs + int (length (filter (\<lambda>w. snd (Get r (workerKey w)) = None) workers)))"
  using assms
proof (induction workers arbitrary: jobs logged)
  case Nil
  then show ?case by simp
next
  case (Cons w ws)
  show ?case
  proof (cases "snd (Get r (workerKey w))")
    case None
    have "fst (countActiveJobs_loop r ws (wrap64 (jobs + 1), logged)) =
      wrap64 (wrap64 (jobs + 1)
        + int (length (filter (\<lambda>w. snd (Get r (workerKey w)) = None) ws)))"
      by (rule Cons.IH) (rule wrap64_idem)
    then show ?thesis using None by (simp add: wrap64_add_left add.assoc)
  next
    case (Some e)
    have "fst (countActiveJobs_loop r ws (jobs, l)) =
      wrap64 (jobs + int (length (filter (\<lambda>w. snd (Get r (workerKey w)) = None) ws)))" for l
      using Cons.prems by (rule Cons.IH)
    then show ?thesis using Some by (cases e) simp_all
  qed
qed

lemma countActiveJobs_loop_log:
  "snd (countActiveJobs_loop r workers (jobs, logged)) =
    logged @ replicate
      (length (filter (\<lambda>w. snd (Get r (workerKey w)) = Some RedisFailure) workers))
      ''unexpected error when getting resque worker from redis''"
proof (induction workers arbitrary: jobs logged)
  case Nil
  then show ?case by simp
next
  case (Cons w ws)
  show ?case
  proof (cases "snd (Get r (workerKey w))")
    case None
    then show ?thesis by (simp add: Cons.IH)
  next
    case (Some e)
    then show ?thesis by (cases e) (simp_all add: Cons.IH replicate_append_same)
  qed
qed

lemma countPendingJobs_loop_wrap:
  assumes "wrap64 jobs = jobs"
  shows "fst (countPendingJobs_loop r queues (jobs, logged)) =
    wrap64 (jobs + sum_list (map (\<lambda>q. fst (LLen r (queueKey q))) queues))"
  using assms
proof (induction queues arbitrary: jobs logged)
  case Nil
  then show ?case by simp
next
  case (Cons q qs)
  obtain n e where ne: "LLen r (queueKey q) = (n, e)" by (cases "LLen r (queueKey q)")
  have "fst (countPendingJobs_loop r qs (wrap64 (jobs + n), l)) =
      wrap64 (wrap64 (jobs + n) + sum_list (map (\<lambda>q. fst (LLen r (queueKey q))) qs))" for l
    by (rule Cons.IH) (rule wrap64_idem)
  then show ?case by (simp add: ne wrap64_add_left add.assoc)
qed

lemma wrap64_0: "wrap64 0 = 0"
  by (simp add: wrap64_def)

lemma countPendingJobs_loop_log:
  "snd (countPendingJobs_loop r queues (jobs, logged)) =
    logged @ replicate
      (length (filter (\<lambda>q. snd (LLen r (queueKey q)) \<noteq> None) queues))
      ''unexpected error when getting resque queue length''"
proof (induction queues arbitrary: jobs logged)
  case Nil
  then show ?case by simp
next
  case (Cons q qs)
  show ?case
    by (cases "LLen r (queueKey q)") (simp add: Cons.IH replicate_append_same)
qed

lemma sample_jobs_queue_backend:
  "- (2 ^ 63) \<le> n \<Longrightarrow> n < 2 ^ 63 \<Longrightarrow> sample_jobs (queue_backend n) = n"
  by (simp add: sample_jobs_def countActiveJobs_def countPendingJobs_def queue_backend_def
      queueKey_def wrap64_id)

section \<open>Facts about the decision step and the loop\<close>

lemma evict_oldest_fields:
  "config (evict_oldest a) = config a" "instances (evict_oldest a) = instances a"
  "lastScaleTime (evict_oldest a) = lastScaleTime a"
  by (simp_all add: evict_oldest_def)

lemma append_sample_fields:
  "config (append_sample a j) = config a" "instances (append_sample a j) = instances a"
  "lastScaleTime (append_sample a j) = lastScaleTime a"
  "samples (append_sample a j) = samples a @ [j]"
  by (simp_all add: append_sample_def)

lemma calculate_from_short:
  "window_short (append_sample a j) \<Longrightarrow>
   calculate_from impl a j now = (instances a, append_sample a j)"
  by (simp add: calculate_from_def Let_def append_sample_fields)

lemma calculate_from_full:
  "\<not> window_short (append_sample a j) \<Longrightarrow>
   calculate_from impl a j now =
     (gate_instances (evict_oldest (append_sample a j))
        (desired_instances impl (evict_oldest (append_sample a j))) now,
      evict_oldest (append_sample a j))"
  by (simp add: calculate_from_def Let_def)

lemma calculate_from_samples:
  "samples (snd (calculate_from impl a j now)) =
     (if NumSamples (config a) < int (length (samples a)) + 1
      then tl (samples a @ [j]) else samples a @ [j])"
  by (simp add: calculate_from_def Let_def window_short_def evict_oldest_def append_sample_def)

lemma calculate_from_config: "config (snd (calculate_from impl a j now)) = config a"
  by (simp add: calculate_from_def Let_def evict_oldest_fields append_sample_fields)

lemma gate_instances_cases:
  "gate_instances a d now = d \<or> gate_instances a d now = instances a"
  by (simp add: gate_instances_def)

lemma gate_instances_eval:
  assumes "a2 = evict_oldest (append_sample a j)"
  shows "gate_instances a2 d now =
    (if instances a < d \<and> lastScaleTime a + ScaleUpDelay (config a) < now then d
     else if d < instances a \<and> lastScaleTime a + ScaleDownDelay (config a) < now then d
     else instances a)"
  by (simp add: assms gate_instances_def evict_oldest_fields append_sample_fields
      time_After_def time_Add_def)

lemma loop_tick_short:
  "window_short (append_sample a (sample_jobs r)) \<Longrightarrow>
   loop_tick impl a r now now' = (None, append_sample a (sample_jobs r))"
  by (simp add: loop_tick_def calculateDesiredInstances_def calculate_from_short
      append_sample_fields)

lemma loop_tick_full:
  assumes "\<not> window_short (append_sample a (sample_jobs r))"
  shows "loop_tick impl a r now now' =
    (let a2 = evict_oldest (append_sample a (sample_jobs r));
         n = gate_instances a2 (desired_instances impl a2) now
     in if n \<noteq> instances a then (Some n, a2\<lparr>instances := n, lastScaleTime := now'\<rparr>)
        else (None, a2))"
  using assms
  by (simp add: loop_tick_def calculateDesiredInstances_def calculate_from_full Let_def
      evict_oldest_fields append_sample_fields)

lemma loop_tick_samples:
  "samples (snd (loop_tick impl a r now now')) =
     (if NumSamples (config a) < int (length (samples a)) + 1
      then tl (samples a @ [sample_jobs r]) else samples a @ [sample_jobs r])"
  using calculate_from_samples [of impl a "sample_jobs r" now]
  by (cases "calculate_from impl a (sample_jobs r) now")
    (simp add: loop_tick_def calculateDesiredInstances_def)

lemma loop_tick_config: "config (snd (loop_tick impl a r now now')) = config a"
  using calculate_from_config [of impl a "sample_jobs r" now]
  by (cases "calculate_from impl a (sample_jobs r) now")
    (simp add: loop_tick_def calculateDesiredInstances_def)

lemma run_ticks_config: "config (run_ticks impl a ts) = config a"
  by (induction ts arbitrary: a) (auto simp: loop_tick_config)

lemma run_ticks_samples:
  assumes "int (length (samples a)) \<le> NumSamples (config a)"
    and "1 \<le> NumSamples (config a)"
  shows "samples (run_ticks impl a ts) =
    drop (length (samples a) + length ts - nat (NumSamples (config a)))
      (samples a @ map (\<lambda>t. sample_jobs (fst t)) ts)"
  using assms
proof (induction ts arbitrary: a)
  case Nil
  then show ?case by simp
next
  case (Cons t ts)
  obtain r now now' where t: "t = (r, now, now')" by (cases t) auto
  define a' where "a' = snd (loop_tick impl a r now now')"
  define N where "N = NumSamples (config a)"
  have c: "config a' = config a" by (simp add: a'_def loop_tick_config)
  have le: "int (length (samples a)) \<le> N" and N1: "1 \<le> N"
    using Cons.prems by (simp_all add: N_def)
  have run: "run_ticks impl a (t # ts) = run_ticks impl a' ts" by (simp add: t a'_def)
  have js: "samples a @ map (\<lambda>t. sample_jobs (fst t)) (t # ts) =
      samples a @ sample_jobs r # map (\<lambda>t. sample_jobs (fst t)) ts"
    by (simp add: t)
  have N1': "1 \<le> NumSamples (config a')" using N1 by (simp add: c N_def)
  show ?case
  proof (cases "N < int (length (samples a)) + 1")
    case True
    with le have len: "int (length (samples a)) = N" by linarith
    then have ne: "samples a \<noteq> []" and nN: "nat N = length (samples a)"
      using N1 by auto
    have s': "samples a' = tl (samples a) @ [sample_jobs r]"
      using True ne by (simp add: a'_def loop_tick_samples N_def)
    have l': "length (samples a') = length (samples a)"
      using ne by (simp add: s')
    have "int (length (samples a')) \<le> NumSamples (config a')" using le by (simp add: l' c N_def)
    then have "samples (run_ticks impl a' ts) =
      drop (length (samples a') + length ts - nat (NumSamples (config a')))
        (samples a' @ map (\<lambda>t. sample_jobs (fst t)) ts)"
      using N1' by (rule Cons.IH)
    moreover have "length (samples a') + length ts - nat (NumSamples (config a')) = length ts"
      by (simp add: l' c N_def [symmetric] nN)
    moreover have "samples a' @ map (\<lambda>t. sample_jobs (fst t)) ts =
        tl (samples a) @ sample_jobs r # map (\<lambda>t. sample_jobs (fst t)) ts"
      by (simp add: s')
    ultimately have "samples (run_ticks impl a' ts) =
        drop (length ts) (tl (samples a) @ sample_jobs r # map (\<lambda>t. sample_jobs (fst t)) ts)"
      by (simp only:)
    also have "\<dots> = drop (Suc (length ts))
        (samples a @ sample_jobs r # map (\<lambda>t. sample_jobs (fst t)) ts)"
      using ne by (cases "samples a") simp_all
    finally have "samples (run_ticks impl a' ts) = drop (Suc (length ts))
        (samples a @ sample_jobs r # map (\<lambda>t. sample_jobs (fst t)) ts)" .
    moreover have "length (samples a) + length (t # ts) - nat (NumSamples (config a))
        = Suc (length ts)"
      by (simp add: N_def [symmetric] nN)
    ultimately show ?thesis by (simp only: run js)
  next
    case False
    then have s': "samples a' = samples a @ [sample_jobs r]"
      by (simp add: a'_def loop_tick_samples N_def)
    have "int (length (samples a')) \<le> NumSamples (config a')"
      using False by (simp add: s' c N_def)
    then have "samples (run_ticks impl a' ts) =
      drop (length (samples a') + length ts - nat (NumSamples (config a')))
        (samples a' @ map (\<lambda>t. sample_jobs (fst t)) ts)"
      using N1' by (rule Cons.IH)
    moreover have "length (samples a') + length ts = length (samples a) + length (t # ts)"
      by (simp add: s')
    moreover have "samples a' @ map (\<lambda>t. sample_jobs (fst t)) ts =
        samples a @ sample_jobs r # map (\<lambda>t. sample_jobs (fst t)) ts"
      by (simp add: s')
    ultimately show ?thesis by (simp only: run js c)
  qed
qed

lemma example_desired:
  "desired_instances amd64 (evict_oldest (append_sample example_state 7)) = 7"
proof -
  have "f64_div (Fin 7) (Fin 1) = Fin (of_int 7)" by (rule f64_div_exact) simp_all
  then show ?thesis
    by (simp add: desired_instances_def evict_oldest_def append_sample_def example_state_def
      default_config_def raw_instances_def average_def f64_of_int_exact wrap64_id
      clamp_instances_def trunc_rat_def)
qed

lemma example_full: "\<not> window_short (append_sample example_state 7)"
  by (simp add: window_short_def append_sample_def example_state_def default_config_def)

text \<open>The tick of the example state at a backlog of seven jobs.\<close>

lemma example_tick:
  "loop_tick amd64 example_state (queue_backend 7) now now' =
     (if 60000001000 < now
      then (Some 7, example_state\<lparr>samples := [7], instances := 7, lastScaleTime := now'\<rparr>)
      else (None, example_state\<lparr>samples := [7]\<rparr>))"
proof -
  have j: "sample_jobs (queue_backend 7) = 7" by (simp add: sample_jobs_queue_backend)
  have e: "evict_oldest (append_sample example_state 7) = example_state\<lparr>samples := [7]\<rparr>"
    by (simp add: evict_oldest_def append_sample_def example_state_def default_config_def)
  have d: "desired_instances amd64 (example_state\<lparr>samples := [7]\<rparr>) = 7"
    using example_desired by (simp add: e)
  have f: "\<not> window_short (append_sample example_state (sample_jobs (queue_backend 7)))"
    by (simp add: j example_full)
  have g: "gate_instances (example_state\<lparr>samples := [7]\<rparr>) 7 now =
      (if 60000001000 < now then 7 else 2)"
    by (simp add: gate_instances_def example_state_def default_config_def time_After_def
        time_Add_def)
  show ?thesis
    unfolding loop_tick_full [OF f] j e Let_def d g
    by (simp add: example_state_def)
qed

section \<open>The claims\<close>

subsection \<open>The delays\<close>

text \<open>
  C1, as the code has it. On a tick with a full window and a desired count that differs
  from the current one, the desired count is sent if and only if the clock reads strictly
  later than the last scaling plus the delay of the direction (\<^verbatim>\<open>now.After\<close>); otherwise
  nothing is sent.
\<close>

theorem decision_emitted_strictly_after_delay:
  assumes "a1 = append_sample a (sample_jobs r)"
    and "a2 = evict_oldest a1"
    and "d = desired_instances impl a2"
    and "t = loop_tick impl a r now now'"
    and "\<not> window_short a1"
    and "d \<noteq> instances a"
  shows "(instances a < d \<longrightarrow>
            (fst t = Some d \<longleftrightarrow> lastScaleTime a + ScaleUpDelay (config a) < now))
    \<and> (d < instances a \<longrightarrow>
            (fst t = Some d \<longleftrightarrow> lastScaleTime a + ScaleDownDelay (config a) < now))
    \<and> (fst t \<noteq> Some d \<longrightarrow> fst t = None)"
proof -
  have f: "\<not> window_short (append_sample a (sample_jobs r))" using assms(1,5) by simp
  have g: "a2 = evict_oldest (append_sample a (sample_jobs r))" using assms(1,2) by simp
  show ?thesis
    unfolding assms(4) loop_tick_full [OF f] g [symmetric] Let_def assms(3) [symmetric]
      gate_instances_eval [OF g]
    using assms(6) by auto
qed

text \<open>C1 one nanosecond later: seven is sent.\<close>

theorem decision_emitted_witness:
  "\<not> window_short (append_sample example_state (sample_jobs (queue_backend 7)))
   \<and> desired_instances amd64
        (evict_oldest (append_sample example_state (sample_jobs (queue_backend 7)))) = 7
   \<and> 7 \<noteq> instances example_state
   \<and> fst (loop_tick amd64 example_state (queue_backend 7) 60000001001 60000001002) = Some 7"
proof -
  have j: "sample_jobs (queue_backend 7) = 7" by (simp add: sample_jobs_queue_backend)
  have f: "\<not> window_short (append_sample example_state (sample_jobs (queue_backend 7)))"
    by (simp add: j example_full)
  have d: "desired_instances amd64
        (evict_oldest (append_sample example_state (sample_jobs (queue_backend 7)))) = 7"
    by (simp add: j example_desired)
  have n: "desired_instances amd64
        (evict_oldest (append_sample example_state (sample_jobs (queue_backend 7))))
      \<noteq> instances example_state"
    unfolding d by (simp add: example_state_def)
  show ?thesis
    using f d decision_emitted_strictly_after_delay [OF refl refl refl refl f n,
        of 60000001001 60000001002]
    by (simp add: example_state_def default_config_def)
qed

text \<open>
  C1, as stated, fails at the boundary: one minute after the last scaling to the
  nanosecond, with a full window and a desired count of seven against two instances,
  nothing is sent.
\<close>

theorem boundary_tick_not_emitted:
  "\<not> window_short (append_sample example_state (sample_jobs (queue_backend 7)))
   \<and> desired_instances amd64
        (evict_oldest (append_sample example_state (sample_jobs (queue_backend 7)))) = 7
   \<and> instances example_state < 7
   \<and> lastScaleTime example_state + ScaleUpDelay (config example_state) = 60000001000
   \<and> fst (loop_tick amd64 example_state (queue_backend 7) 60000001000 60000001001) = None"
proof -
  have j: "sample_jobs (queue_backend 7) = 7" by (simp add: sample_jobs_queue_backend)
  show ?thesis
    unfolding example_tick j using example_full example_desired
    by (simp add: example_state_def default_config_def)
qed

subsection \<open>The bounds\<close>

text \<open>
  C2. When \<^verbatim>\<open>MinInstances\<close> is at most \<^verbatim>\<open>MaxInstances\<close>, the clamped count lies between
  the two, for every count \<open>d\<close> that goes into the clamp, and so does the desired count
  the step computes from any window, whatever the platform makes of a quotient that does
  not convert.
\<close>

theorem desired_within_bounds:
  assumes "MinInstances (config a) \<le> MaxInstances (config a)"
  shows "MinInstances (config a) \<le> clamp_instances (config a) d
    \<and> clamp_instances (config a) d \<le> MaxInstances (config a)
    \<and> MinInstances (config a) \<le> desired_instances impl a
    \<and> desired_instances impl a \<le> MaxInstances (config a)"
  using assms by (simp add: desired_instances_def clamp_instances_def Let_def)

text \<open>C2 at the default bounds: eighty instances are cut to fifty, and the empty window of
  the example state, whose average is a NaN, still gives a count within the bounds.\<close>

theorem desired_within_bounds_witness:
  "MinInstances (config example_state) \<le> MaxInstances (config example_state)
   \<and> clamp_instances (config example_state) 80 = 50
   \<and> 2 \<le> desired_instances amd64 example_state
   \<and> desired_instances amd64 example_state \<le> 50"
proof -
  have m: "MinInstances (config example_state) \<le> MaxInstances (config example_state)"
    by (simp add: example_state_def default_config_def)
  have "clamp_instances (config example_state) 80 = 50"
    by (simp add: clamp_instances_def example_state_def default_config_def)
  then show ?thesis
    using m desired_within_bounds [OF m, of 80 amd64]
    by (simp add: example_state_def default_config_def)
qed

subsection \<open>Ticks that change nothing\<close>

text \<open>
  C3. A tick that sends nothing leaves the instance count and the time of the last
  scaling unchanged, and a tick sends nothing when the window is short, when the desired
  count equals the current one, or when the delay of its direction has not passed. A tick
  that sends a value sends the desired count, which differs from the current one, and
  sets the time of the last scaling to the reading of the clock after the send.
\<close>

theorem no_change_keeps_state:
  assumes "a1 = append_sample a (sample_jobs r)"
    and "a2 = evict_oldest a1"
    and "d = desired_instances impl a2"
    and "t = loop_tick impl a r now now'"
  shows "(fst t = None \<longrightarrow>
            instances (snd t) = instances a \<and> lastScaleTime (snd t) = lastScaleTime a)
    \<and> (fst t \<noteq> None \<longrightarrow>
            fst t = Some d \<and> d \<noteq> instances a \<and> \<not> window_short a1
            \<and> instances (snd t) = d \<and> lastScaleTime (snd t) = now')
    \<and> (window_short a1 \<longrightarrow> fst t = None)
    \<and> (d = instances a \<longrightarrow> fst t = None)
    \<and> (instances a < d
          \<and> \<not> time_After now (time_Add (lastScaleTime a) (ScaleUpDelay (config a)))
          \<longrightarrow> fst t = None)
    \<and> (d < instances a
          \<and> \<not> time_After now (time_Add (lastScaleTime a) (ScaleDownDelay (config a)))
          \<longrightarrow> fst t = None)"
proof (cases "window_short a1")
  case True
  then show ?thesis
    using assms by (simp add: loop_tick_short append_sample_fields)
next
  case False
  then have f: "\<not> window_short (append_sample a (sample_jobs r))" using assms(1) by simp
  have g: "a2 = evict_oldest (append_sample a (sample_jobs r))" using assms(1,2) by simp
  show ?thesis
    unfolding assms(4) loop_tick_full [OF f] g [symmetric] Let_def assms(3) [symmetric]
      gate_instances_eval [OF g]
    using False
    by (simp add: g evict_oldest_fields append_sample_fields time_After_def time_Add_def)
qed

text \<open>C3 at a suppressed tick and at a tick that sends.\<close>

theorem no_change_witness:
  "fst (loop_tick amd64 example_state (queue_backend 7) 2000 2001) = None
   \<and> instances (snd (loop_tick amd64 example_state (queue_backend 7) 2000 2001)) = 2
   \<and> lastScaleTime (snd (loop_tick amd64 example_state (queue_backend 7) 2000 2001)) = 1000
   \<and> fst (loop_tick amd64 example_state (queue_backend 7) 70000000000 70000000001) = Some 7
   \<and> lastScaleTime (snd (loop_tick amd64 example_state (queue_backend 7) 70000000000 70000000001))
       = 70000000001"
proof -
  have n: "fst (loop_tick amd64 example_state (queue_backend 7) 2000 2001) = None"
    by (simp add: example_tick)
  have e: "fst (loop_tick amd64 example_state (queue_backend 7) 70000000000 70000000001) \<noteq> None"
    by (simp add: example_tick)
  have j: "sample_jobs (queue_backend 7) = 7" by (simp add: sample_jobs_queue_backend)
  show ?thesis
    using n e
      no_change_keeps_state [OF refl refl refl refl, where a = example_state
        and r = "queue_backend 7" and impl = amd64 and now = 2000 and now' = 2001]
      no_change_keeps_state [OF refl refl refl refl, where a = example_state
        and r = "queue_backend 7" and impl = amd64 and now = 70000000000
        and now' = 70000000001]
      example_desired
    by (simp add: j example_state_def)
qed

subsection \<open>The window\<close>

text \<open>
  C4. With \<^verbatim>\<open>NumSamples\<close> at least one and an empty window at the start, after any number
  of ticks the window holds the most recent samples in the order they were pushed, the
  oldest dropped first, and never more than \<^verbatim>\<open>NumSamples\<close> of them; and the push that
  follows \<open>k\<close> ticks finds the window still short exactly when \<open>k + 1\<close> is below
  \<^verbatim>\<open>NumSamples\<close>, so that the first \<^verbatim>\<open>NumSamples - 1\<close> pushes are not ready and every push
  from the next one on is.
\<close>

theorem window_fills_then_slides:
  assumes "1 \<le> NumSamples (config a)"
    and "samples a = []"
  shows "samples (run_ticks impl a ts) =
      drop (length ts - nat (NumSamples (config a))) (map (\<lambda>t. sample_jobs (fst t)) ts)
    \<and> int (length (samples (run_ticks impl a ts))) \<le> NumSamples (config a)
    \<and> (window_short (append_sample (run_ticks impl a ts) j)
          \<longleftrightarrow> int (length ts) + 1 < NumSamples (config a))"
proof -
  have "int (length (samples a)) \<le> NumSamples (config a)" using assms by simp
  from run_ticks_samples [OF this assms(1), of impl ts]
  have s: "samples (run_ticks impl a ts) =
      drop (length ts - nat (NumSamples (config a))) (map (\<lambda>t. sample_jobs (fst t)) ts)"
    using assms(2) by simp
  have l: "length (samples (run_ticks impl a ts)) = min (length ts) (nat (NumSamples (config a)))"
    unfolding s by simp
  show ?thesis
    using s l assms(1)
    by (auto simp: window_short_def append_sample_fields run_ticks_config)
qed

text \<open>C4 at a window of three: four pushes, and the second and third push.\<close>

theorem window_fills_witness:
  "samples (run_ticks amd64 (example_state\<lparr>config := (config example_state)\<lparr>NumSamples := 3\<rparr>\<rparr>)
      [(queue_backend 4, 1, 2), (queue_backend 4, 3, 4), (queue_backend 6, 5, 6),
       (queue_backend 8, 7, 8)]) = [4, 6, 8]
   \<and> window_short (append_sample
        (run_ticks amd64 (example_state\<lparr>config := (config example_state)\<lparr>NumSamples := 3\<rparr>\<rparr>)
          [(queue_backend 4, 1, 2)]) 4)
   \<and> \<not> window_short (append_sample
        (run_ticks amd64 (example_state\<lparr>config := (config example_state)\<lparr>NumSamples := 3\<rparr>\<rparr>)
          [(queue_backend 4, 1, 2), (queue_backend 4, 3, 4)]) 4)"
proof -
  have n: "1 \<le> NumSamples (config (example_state\<lparr>config := (config example_state)\<lparr>NumSamples := 3\<rparr>\<rparr>))"
    by simp
  have e: "samples (example_state\<lparr>config := (config example_state)\<lparr>NumSamples := 3\<rparr>\<rparr>) = []"
    by (simp add: example_state_def)
  show ?thesis
    using window_fills_then_slides [OF n e, of amd64
        "[(queue_backend 4, 1, 2), (queue_backend 4, 3, 4), (queue_backend 6, 5, 6),
          (queue_backend 8, 7, 8)]" 0]
      window_fills_then_slides [OF n e, of amd64 "[(queue_backend 4, 1, 2)]" 4]
      window_fills_then_slides [OF n e, of amd64 "[(queue_backend 4, 1, 2), (queue_backend 4, 3, 4)]" 4]
    by (simp add: sample_jobs_queue_backend)
qed

subsection \<open>The short window\<close>

text \<open>
  C5. When the window is still shorter than \<^verbatim>\<open>NumSamples\<close> after the new sample has been
  appended, the decision step returns exactly the current instance count: the loop sends
  nothing, and the instance count and the time of the last scaling stay as they were.
\<close>

theorem short_window_returns_current:
  assumes "window_short (append_sample a (sample_jobs r))"
  shows "fst (calculateDesiredInstances impl a r now) = instances a
    \<and> fst (loop_tick impl a r now now') = None
    \<and> instances (snd (loop_tick impl a r now now')) = instances a
    \<and> lastScaleTime (snd (loop_tick impl a r now now')) = lastScaleTime a"
  using assms
  by (simp add: calculateDesiredInstances_def loop_tick_def calculate_from_short
      append_sample_fields)

text \<open>C5 at a window of three that holds one sample after the append.\<close>

theorem short_window_witness:
  "window_short (append_sample (example_state\<lparr>config := (config example_state)\<lparr>NumSamples := 3\<rparr>\<rparr>)
      (sample_jobs (queue_backend 7)))
   \<and> fst (calculateDesiredInstances amd64
        (example_state\<lparr>config := (config example_state)\<lparr>NumSamples := 3\<rparr>\<rparr>)
        (queue_backend 7) 70000000000) = 2
   \<and> fst (loop_tick amd64
        (example_state\<lparr>config := (config example_state)\<lparr>NumSamples := 3\<rparr>\<rparr>)
        (queue_backend 7) 70000000000 70000000001) = None"
proof -
  have s: "window_short (append_sample (example_state\<lparr>config := (config example_state)\<lparr>NumSamples := 3\<rparr>\<rparr>)
      (sample_jobs (queue_backend 7)))"
    by (simp add: window_short_def append_sample_def example_state_def)
  show ?thesis
    using s short_window_returns_current [OF s, of amd64 70000000000 70000000001]
    by (simp add: example_state_def)
qed

subsection \<open>The count before clamping\<close>

text \<open>
  C6, as the code has it. For a non-empty window of non-negative samples whose sum is
  below \<open>2 ^ 52\<close>, of fewer than \<open>2 ^ 53\<close> entries, and \<^verbatim>\<open>WorkersPerInstance\<close> between one
  and \<open>2 ^ 52\<close>, the count before clamping is the ceiling of the exact mean of the window
  divided by \<^verbatim>\<open>WorkersPerInstance\<close>: the mean is not cut to an integer, and in this range
  the two roundings of the \<^verbatim>\<open>float64\<close> divisions never move the quotient across an
  integer.
\<close>

theorem raw_instances_exact_ceiling:
  assumes "xs \<noteq> []"
    and "\<forall>x\<in>set xs. 0 \<le> x"
    and "sum_list xs < 2 ^ 52"
    and "int (length xs) < 2 ^ 53"
    and "1 \<le> WorkersPerInstance c"
    and "WorkersPerInstance c \<le> 2 ^ 52"
  shows "raw_instances impl c xs =
    \<lceil>rat_of_int (sum_list xs) / of_nat (length xs) / of_int (WorkersPerInstance c)\<rceil>"
proof -
  let ?w = "WorkersPerInstance c"
  define S where "S = sum_list xs"
  define n where "n = int (length xs)"
  have S0: "0 \<le> S" using assms(2) by (simp add: S_def sum_list_nonneg)
  have n1: "1 \<le> n" using assms(1) by (cases xs) (simp_all add: n_def)
  have sum: "average_sum xs 0 = S"
    using assms(2,3) by (simp add: average_sum_eq S_def)
  have fS: "f64_of_int S = Fin (of_int S)"
    using S0 assms(3) by (intro f64_of_int_exact) (simp add: S_def)
  have fn: "f64_of_int n = Fin (of_int n)"
    using n1 assms(4) by (intro f64_of_int_exact) (simp add: n_def)
  have fw: "f64_of_int ?w = Fin (of_int ?w)"
    using assms(5,6) by (intro f64_of_int_exact) simp
  have n0: "rat_of_int n \<noteq> 0" using n1 by simp
  have "average xs = f64_div (Fin (of_int S)) (Fin (of_int n))"
    unfolding average_def sum n_def [symmetric] fS fn ..
  then have avg: "average xs = round64 (of_int S / of_int n)"
    using n0 by simp
  have w0: "rat_of_int ?w \<noteq> 0" using assms(5) by simp
  have goal: "\<lceil>rat_of_int (sum_list xs) / of_nat (length xs) / of_int ?w\<rceil>
      = \<lceil>rat_of_int S / of_int n / of_int ?w\<rceil>"
    by (simp add: S_def n_def)
  show ?thesis
  proof (cases "S = 0")
    case True
    have a: "average xs = Fin 0" by (simp add: avg True round64_def)
    have z: "round64 (0 / rat_of_int ?w) = Fin 0" by (simp add: round64_def)
    have "raw_instances impl c xs = \<lceil>0::rat\<rceil>"
      by (rule raw_instances_Fin [OF a fw w0 z]) simp_all
    then show ?thesis unfolding goal by (simp add: True)
  next
    case False
    with S0 have Spos: "0 < S" by simp
    obtain a b where ab: "round64 (of_int S / of_int n) = Fin a" "round64 (a / of_int ?w) = Fin b"
        "\<lceil>b\<rceil> = \<lceil>rat_of_int S / of_int n / of_int ?w\<rceil>"
      using two_roundings_ceiling [OF Spos assms(3) [folded S_def] n1 assms(4) [folded n_def]
          assms(5) assms(6)]
      by blast
    have nonneg: "0 \<le> rat_of_int S / of_int n / of_int ?w"
      using S0 n1 assms(5) by simp
    have "rat_of_int S / of_int n / of_int ?w \<le> rat_of_int S / 1 / 1"
      using S0 n1 assms(5) by (intro frac_le divide_nonneg_nonneg) simp_all
    then have "\<lceil>rat_of_int S / of_int n / of_int ?w\<rceil> \<le> S" by (simp add: ceiling_le_iff)
    then have "\<lceil>b\<rceil> \<le> S" by (simp only: ab(3))
    moreover have "S < 2 ^ 63" using assms(3) by (simp add: S_def)
    ultimately have hi: "\<lceil>b\<rceil> < 2 ^ 63" by (rule le_less_trans)
    have "rat_of_int 0 \<le> rat_of_int S / of_int n / of_int ?w" using nonneg by simp
    then have "0 \<le> \<lceil>rat_of_int S / of_int n / of_int ?w\<rceil>"
      by (rule order_trans [OF _ le_of_int_ceiling, THEN of_int_le_iff [THEN iffD1]])
    then have "0 \<le> \<lceil>b\<rceil>" by (simp only: ab(3))
    then have lo: "- (2 ^ 63) \<le> \<lceil>b\<rceil>" by (rule order_trans [rotated]) simp
    have "raw_instances impl c xs = \<lceil>b\<rceil>"
      by (rule raw_instances_Fin [OF avg [unfolded ab(1)] fw w0 ab(2) lo hi])
    then show ?thesis unfolding goal ab(3) .
  qed
qed

text \<open>C6 at the window of one and two jobs: the mean is one and a half, the count two.\<close>

theorem raw_instances_witness:
  "raw_instances amd64 (default_config ''srv-1'' ''key'' ''redis:6379'') [1, 2] = 2"
proof -
  have c: "\<lceil>(3::rat) / 2\<rceil> = 2" by (rule ceiling_unique) simp_all
  have "1 \<le> WorkersPerInstance (default_config ''srv-1'' ''key'' ''redis:6379'')"
    "WorkersPerInstance (default_config ''srv-1'' ''key'' ''redis:6379'') \<le> 2 ^ 52"
    by (simp_all add: default_config_def)
  from raw_instances_exact_ceiling [OF _ _ _ _ this, of "[1, 2]" amd64]
  show ?thesis by (simp add: default_config_def c)
qed

text \<open>
  C6, as stated, fails for a large sample: \<open>2 ^ 53 + 1\<close> jobs have no \<^verbatim>\<open>float64\<close> of their
  own, the conversion of the sum rounds to \<open>2 ^ 53\<close>, and with one worker per instance the
  count before clamping is one below the ceiling of the exact mean.
\<close>

theorem large_sample_loses_a_job:
  "raw_instances amd64 (default_config ''srv-1'' ''key'' ''redis:6379'') [9007199254740993]
     = 9007199254740992
   \<and> \<lceil>rat_of_int (sum_list [9007199254740993]) / of_nat (length [9007199254740993 :: int])
        / of_int (WorkersPerInstance (default_config ''srv-1'' ''key'' ''redis:6379''))\<rceil>
     = 9007199254740993"
proof -
  have "round64 (rat_of_int 9007199254740993) = Fin (2 ^ 53)"
    by (rule round64_above_2p53) simp
  then have s: "f64_of_int 9007199254740993 = Fin 9007199254740992"
    by (simp add: f64_of_int_def)
  have "round64 9007199254740992 = Fin (2 ^ 53)"
    by (rule round64_above_2p53) simp
  then have d: "round64 9007199254740992 = Fin 9007199254740992" by simp
  have one: "f64_of_int 1 = Fin 1" using f64_of_int_exact [of 1] by simp
  have "average [9007199254740993] = Fin 9007199254740992"
    by (simp add: average_def wrap64_id s one d)
  then have "raw_instances amd64 (default_config ''srv-1'' ''key'' ''redis:6379'')
      [9007199254740993] = 9007199254740992"
    by (simp add: raw_instances_def default_config_def one d trunc_rat_def)
  then show ?thesis by (simp add: default_config_def)
qed

subsection \<open>The sample\<close>

text \<open>
  C7, as the code has it. For every backend, the sample of a tick is the sum of two
  counts, reduced to the range of a 64-bit \<^verbatim>\<open>int\<close>: the number of registered workers whose
  lease key could be read, and the sum of the values that \<^verbatim>\<open>LLen\<close> returned for the
  registered queues. A worker whose read fails adds nothing. A queue whose read fails is
  not skipped: the value that came with the error is added as it is. Each failed read,
  other than that of a missing lease key, writes one line to the log, as does a failed
  read of a set. Whenever the sum of the two counts lies between zero and \<open>2 ^ 63\<close>, the
  sample is that sum and is not negative. The functions are total: no branch of them
  hands an error back to the caller.
\<close>

theorem sample_is_wrapped_sum:
  assumes "workers = fst (SMembers r ''resque:workers'')"
    and "queues = fst (SMembers r ''resque:queues'')"
    and "active = int (length (filter (\<lambda>w. snd (Get r (workerKey w)) = None) workers))"
    and "pending = sum_list (map (\<lambda>q. fst (LLen r (queueKey q))) queues)"
  shows "sample_jobs r = wrap64 (active + pending)
    \<and> fst (countActiveJobs r) = wrap64 active
    \<and> fst (countPendingJobs r) = wrap64 pending
    \<and> (0 \<le> active + pending \<and> active + pending < 2 ^ 63 \<longrightarrow>
          sample_jobs r = active + pending \<and> 0 \<le> sample_jobs r)
    \<and> snd (countActiveJobs r) =
        (if snd (SMembers r ''resque:workers'') \<noteq> None
         then [''failed to retrieve resque worker set from redis''] else [])
        @ replicate (length (filter (\<lambda>w. snd (Get r (workerKey w)) = Some RedisFailure) workers))
            ''unexpected error when getting resque worker from redis''
    \<and> snd (countPendingJobs r) =
        (if snd (SMembers r ''resque:queues'') \<noteq> None
         then [''failed to retrieve resque queue set from redis''] else [])
        @ replicate (length (filter (\<lambda>q. snd (LLen r (queueKey q)) \<noteq> None) queues))
            ''unexpected error when getting resque queue length''"
proof -
  have act: "fst (countActiveJobs r) = wrap64 active"
    using countActiveJobs_loop_wrap [OF wrap64_0, of r workers]
    by (simp add: countActiveJobs_def assms(1,3) case_prod_beta)
  have pen: "fst (countPendingJobs r) = wrap64 pending"
    using countPendingJobs_loop_wrap [OF wrap64_0, of r queues]
    by (simp add: countPendingJobs_def assms(2,4) case_prod_beta)
  have sam: "sample_jobs r = wrap64 (active + pending)"
    unfolding sample_jobs_def act pen by (simp only: wrap64_add_left wrap64_add_right)
  have rng: "0 \<le> active + pending \<and> active + pending < 2 ^ 63 \<longrightarrow>
      sample_jobs r = active + pending \<and> 0 \<le> sample_jobs r"
    unfolding sam by (simp add: wrap64_id)
  have alog: "snd (countActiveJobs r) =
        (if snd (SMembers r ''resque:workers'') \<noteq> None
         then [''failed to retrieve resque worker set from redis''] else [])
        @ replicate (length (filter (\<lambda>w. snd (Get r (workerKey w)) = Some RedisFailure) workers))
            ''unexpected error when getting resque worker from redis''"
    by (simp add: countActiveJobs_def countActiveJobs_loop_log assms(1) case_prod_beta)
  have plog: "snd (countPendingJobs r) =
        (if snd (SMembers r ''resque:queues'') \<noteq> None
         then [''failed to retrieve resque queue set from redis''] else [])
        @ replicate (length (filter (\<lambda>q. snd (LLen r (queueKey q)) \<noteq> None) queues))
            ''unexpected error when getting resque queue length''"
    by (simp add: countPendingJobs_def countPendingJobs_loop_log assms(2) case_prod_beta)
  show ?thesis using sam act pen rng alog plog by (simp only:)
qed

text \<open>C7 at the example backend: one live worker and five queued jobs, one line of log
  from each counting function.\<close>

theorem sample_witness:
  "sample_jobs example_backend = 6
   \<and> fst (countActiveJobs example_backend) = 1
   \<and> fst (countPendingJobs example_backend) = 5
   \<and> snd (countActiveJobs example_backend) =
        [''unexpected error when getting resque worker from redis'']
   \<and> snd (countPendingJobs example_backend) =
        [''unexpected error when getting resque queue length'']"
  using sample_is_wrapped_sum [OF refl refl refl refl, of example_backend]
  by (simp add: example_backend_def queueKey_def workerKey_def wrap64_def)

text \<open>
  C7, as stated, fails when the counts leave the range of \<^verbatim>\<open>int\<close>: two queues of
  \<open>2 ^ 62\<close> jobs each, both read without error, give a negative sample.
\<close>

theorem overfull_sample_is_negative:
  "LLen overfull_backend (queueKey ''high'') = (4611686018427387904, None)
   \<and> LLen overfull_backend (queueKey ''low'') = (4611686018427387904, None)
   \<and> fst (SMembers overfull_backend ''resque:queues'') = [''high'', ''low'']
   \<and> sample_jobs overfull_backend = - 9223372036854775808"
  by (simp add: overfull_backend_def sample_jobs_def countActiveJobs_def countPendingJobs_def
      wrap64_def)


subsection \<open>A failed read at start-up\<close>

text \<open>
  C8. When the read of the fleet size at start-up fails, by an error of the call or by a
  status other than 200, \<^verbatim>\<open>getInstanceCount\<close> returns \<^verbatim>\<open>MinInstances\<close> and the state starts
  with that instance count.
\<close>

theorem failed_read_falls_back:
  assumes "failed res \<or> status res \<noteq> 200"
  shows "getInstanceCount impl c res = MinInstances c
    \<and> instances (init_autoscaler impl c res) = MinInstances c"
  using assms by (auto simp: getInstanceCount_def init_autoscaler_def)

text \<open>C8 at a status of 503 and at a failed call.\<close>

theorem failed_read_witness:
  "getInstanceCount amd64 (default_config ''srv-1'' ''key'' ''redis:6379'')
     \<lparr>status = 503, numInstances = Fin 9, failed = False\<rparr> = 2
   \<and> instances (init_autoscaler amd64 (default_config ''srv-1'' ''key'' ''redis:6379'')
     \<lparr>status = 0, numInstances = Fin 0, failed = True\<rparr>) = 2"
  using failed_read_falls_back [where res = "\<lparr>status = 503, numInstances = Fin 9, failed = False\<rparr>"
      and impl = amd64 and c = "default_config ''srv-1'' ''key'' ''redis:6379''"]
    failed_read_falls_back [where res = "\<lparr>status = 0, numInstances = Fin 0, failed = True\<rparr>"
      and impl = amd64 and c = "default_config ''srv-1'' ''key'' ''redis:6379''"]
  by (simp add: default_config_def)

subsection \<open>The reported count\<close>

text \<open>
  C9, as the code has it. When the read succeeds and the reported count is zero or
  negative (zero is also what a missing field reads as), the count falls back to
  \<^verbatim>\<open>MinInstances\<close>. With a positive \<^verbatim>\<open>MinInstances\<close>, and a reported count that is either
  not positive or at least one and below \<open>2 ^ 63\<close>, the result is positive.
\<close>

theorem instance_count_positive:
  assumes "0 < MinInstances c"
    and "numInstances res = Fin x"
    and "x \<le> 0 \<or> (1 \<le> x \<and> x < 2 ^ 63)"
  shows "0 < getInstanceCount impl c res
    \<and> (x \<le> 0 \<longrightarrow> getInstanceCount impl c res = MinInstances c)"
proof (cases "failed res \<or> status res \<noteq> 200")
  case True
  then show ?thesis using assms by (auto simp: getInstanceCount_def)
next
  case False
  show ?thesis
  proof (cases "x \<le> 0")
    case True
    then show ?thesis using assms(1,2) False by (simp add: getInstanceCount_def)
  next
    case False
    with assms(3) have x: "1 \<le> x" "x < 2 ^ 63" by simp_all
    then have "1 \<le> \<lfloor>x\<rfloor>" "\<lfloor>x\<rfloor> < 2 ^ 63" by (simp_all add: le_floor_iff floor_less_iff)
    then show ?thesis
      using assms(1,2) x \<open>\<not> (failed res \<or> status res \<noteq> 200)\<close>
      by (simp add: getInstanceCount_def trunc_rat_def Let_def)
  qed
qed

text \<open>C9 at a reported count of zero and at a reported count of five.\<close>

theorem instance_count_positive_witness:
  "getInstanceCount amd64 (default_config ''srv-1'' ''key'' ''redis:6379'')
       \<lparr>status = 200, numInstances = Fin 0, failed = False\<rparr> = 2
   \<and> 0 < getInstanceCount amd64 (default_config ''srv-1'' ''key'' ''redis:6379'')
       \<lparr>status = 200, numInstances = Fin 5, failed = False\<rparr>"
  using instance_count_positive [where c = "default_config ''srv-1'' ''key'' ''redis:6379''"
      and res = "\<lparr>status = 200, numInstances = Fin 0, failed = False\<rparr>" and x = 0
      and impl = amd64]
    instance_count_positive [where c = "default_config ''srv-1'' ''key'' ''redis:6379''"
      and res = "\<lparr>status = 200, numInstances = Fin 5, failed = False\<rparr>" and x = 5
      and impl = amd64]
  by (simp add: default_config_def)

text \<open>
  C9, as stated, fails: a successful read that reports half an instance passes the test
  \<^verbatim>\<open>count > 0\<close> and is cut to zero by the conversion to \<^verbatim>\<open>int\<close>.
\<close>

theorem fractional_count_gives_zero:
  "0 < MinInstances (default_config ''srv-1'' ''key'' ''redis:6379'')
   \<and> getInstanceCount amd64 (default_config ''srv-1'' ''key'' ''redis:6379'')
       \<lparr>status = 200, numInstances = Fin (1 / 2), failed = False\<rparr> = 0"
proof -
  have "\<lfloor>(1::rat) / 2\<rfloor> = 0" by (rule floor_unique) simp_all
  then show ?thesis by (simp add: getInstanceCount_def default_config_def trunc_rat_def)
qed

subsection \<open>The append\<close>

text \<open>
  C10. Every decision step appends the new sample to the window before it checks anything:
  whatever the step returns, the window afterwards is the old window with the sample at
  its end, without its oldest entry when that made it longer than \<^verbatim>\<open>NumSamples\<close>. The
  loop leaves the window as the step returned it, whether it sends a decision or not.
\<close>

theorem sample_appended_every_tick:
  "samples (snd (calculateDesiredInstances impl a r now)) =
     (if NumSamples (config a) < int (length (samples a)) + 1
      then tl (samples a @ [sample_jobs r]) else samples a @ [sample_jobs r])
   \<and> samples (snd (loop_tick impl a r now now')) =
        samples (snd (calculateDesiredInstances impl a r now))"
  by (simp add: calculateDesiredInstances_def loop_tick_def calculate_from_def Let_def
      window_short_def evict_oldest_def append_sample_def split: prod.split)

text \<open>C10 at a window of one: the new sample replaces the old one.\<close>

theorem sample_appended_witness:
  "samples (snd (loop_tick amd64 (example_state\<lparr>samples := [3]\<rparr>) (queue_backend 1)
      1001 1002)) = [1]"
  using sample_appended_every_tick [of amd64 "example_state\<lparr>samples := [3]\<rparr>" "queue_backend 1" 1001 1002]
  by (simp add: example_state_def default_config_def sample_jobs_queue_backend)

end
